theory Spec2Isabelle
  imports Complex_Main "HOL-Library.Multiset"
begin

section \<open>Python strings\<close>

text \<open>
  A Python \<open>str\<close> is a sequence of Unicode code points. A code point is modelled by its
  number, a string by the list of its code points. \<open>ord\<close> gives the code point of an
  ASCII character and \<open>str\<close> the Python string of an ASCII literal.
\<close>

type_synonym pystr = "nat list"

definition ord :: "char \<Rightarrow> nat" where
  "ord c = of_char c"

definition str :: "string \<Rightarrow> pystr" where
  "str cs = map ord cs"

text \<open>
  \<open>str.isspace\<close> on one code point: the code points that CPython treats as
  whitespace (tab to carriage return, the four separators \<open>0x1c..0x1f\<close>, space,
  \<open>0x85\<close>, \<open>0xa0\<close>, \<open>0x1680\<close>, \<open>0x2000..0x200a\<close>, \<open>0x2028\<close>, \<open>0x2029\<close>, \<open>0x202f\<close>,
  \<open>0x205f\<close>, \<open>0x3000\<close>).
\<close>

definition isspace :: "nat \<Rightarrow> bool" where
  "isspace c \<longleftrightarrow>
     (9 \<le> c \<and> c \<le> 13) \<or> (28 \<le> c \<and> c \<le> 32) \<or> c = 133 \<or> c = 160 \<or> c = 5760 \<or>
     (8192 \<le> c \<and> c \<le> 8202) \<or> c = 8232 \<or> c = 8233 \<or> c = 8239 \<or> c = 8287 \<or> c = 12288"

text \<open>\<open>s.strip()\<close>: drop the whitespace at both ends.\<close>

definition strip :: "pystr \<Rightarrow> pystr" where
  "strip s = rev (dropWhile isspace (rev (dropWhile isspace s)))"

text \<open>
  \<open>s.split(sep)\<close> for a separator of one character: the pieces between the occurrences
  of the separator, so one piece more than there are separators.
\<close>

fun str_split :: "nat \<Rightarrow> pystr \<Rightarrow> pystr list" where
  "str_split sep [] = [[]]"
| "str_split sep (x # xs) =
     (if x = sep then [] # str_split sep xs
      else (x # hd (str_split sep xs)) # tl (str_split sep xs))"

section \<open>Exceptions\<close>

text \<open>
  The exceptions that the modelled code can meet, all of them subclasses of Python's
  \<open>Exception\<close>: \<open>NoAnswer\<close>, \<open>NXDOMAIN\<close>, \<open>Timeout\<close> and \<open>EmptyLabel\<close> come from
  \<open>dns.resolver\<close>, \<open>gaierror\<close> from \<open>socket\<close>; \<open>UnicodeError\<close> is what
  \<open>socket.gethostbyname\<close> raises when the IDNA encoding of the name fails (an empty
  label, or one of more than 63 characters).
\<close>

datatype pyexn =
    NoAnswer | NXDOMAIN | Timeout | EmptyLabel
  | gaierror | UnicodeError | OSError
  | IndexError | ValueError

text \<open>\<open>xs[i]\<close> for \<open>i \<ge> 0\<close>: Python raises \<open>IndexError\<close> out of range.\<close>

definition index :: "'a list \<Rightarrow> nat \<Rightarrow> pyexn + 'a" where
  "index xs i = (if i < length xs then Inr (xs ! i) else Inl IndexError)"

section \<open>The regular expression\<close>

text \<open>
  \<open>EMAIL_REGEX\<close> is a sequence of anchors, literal characters and character classes
  repeated greedily with a lower bound and no upper bound (\<open>+\<close> is \<open>{1,}\<close>). A class is
  a list of inclusive ranges of code points.
\<close>

type_synonym charset = "(nat \<times> nat) list"

datatype item =
    Caret
  | Dollar
  | Chr nat
  | Rep charset nat

definition in_class :: "charset \<Rightarrow> nat \<Rightarrow> bool" where
  "in_class cs c = list_ex (\<lambda>(lo, hi). lo \<le> c \<and> c \<le> hi) cs"

text \<open>
  A greedy repetition followed by the rest of the pattern: the engine takes as many
  characters as the class allows, tries the rest, and gives characters back one at a
  time, down to the lower bound, until the rest matches. \<open>f k\<close> is the rest of the
  pattern tried after \<open>k\<close> characters.
\<close>

fun greedy :: "(nat \<Rightarrow> nat option) \<Rightarrow> nat \<Rightarrow> nat \<Rightarrow> nat option" where
  "greedy f 0 n = (if 0 < n then None else f 0)"
| "greedy f (Suc k) n =
     (if Suc k < n then None
      else case f (Suc k) of Some e \<Rightarrow> Some e | None \<Rightarrow> greedy f k n)"

text \<open>
  Matching a pattern at position \<open>pos\<close> of the subject, \<open>s\<close> being the subject from
  \<open>pos\<close> on. The result is the position where the match ends. Without the
  \<open>MULTILINE\<close> flag, \<open>^\<close> matches at position 0 only, and \<open>$\<close> matches at the end of
  the subject and also just before a newline that ends the subject.
\<close>

fun match_items :: "item list \<Rightarrow> nat \<Rightarrow> pystr \<Rightarrow> nat option" where
  "match_items [] pos s = Some pos"
| "match_items (Caret # r) pos s = (if pos = 0 then match_items r pos s else None)"
| "match_items (Dollar # r) pos s =
     (if s = [] \<or> s = [10] then match_items r pos s else None)"
| "match_items (Chr c # r) pos s =
     (case s of [] \<Rightarrow> None
      | x # xs \<Rightarrow> if x = c then match_items r (pos + 1) xs else None)"
| "match_items (Rep cs n # r) pos s =
     greedy (\<lambda>k. match_items r (pos + k) (drop k s)) (length (takeWhile (in_class cs) s)) n"

text \<open>\<open>re.match(pattern, s)\<close>: a match that starts at position 0, or \<open>None\<close>.\<close>

definition re_match :: "item list \<Rightarrow> pystr \<Rightarrow> nat option" where
  "re_match p s = match_items p 0 s"

text \<open>
  \<open>re.findall(pattern, s)\<close> for a pattern without groups: the matched substrings, found
  by searching from left to right, each search starting where the previous match
  ended (one character further after an empty match).
\<close>

function findall_from :: "item list \<Rightarrow> pystr \<Rightarrow> nat \<Rightarrow> pystr list" where
  "findall_from p s pos =
     (if length s < pos then []
      else case match_items p pos (drop pos s) of
             None \<Rightarrow> findall_from p s (pos + 1)
           | Some e \<Rightarrow>
               take (e - pos) (drop pos s) #
               findall_from p s (if pos < e then e else pos + 1))"
  by pat_completeness auto
termination
  by (relation "measure (\<lambda>(p, s, pos). Suc (length s) - pos)") auto

definition findall :: "item list \<Rightarrow> pystr \<Rightarrow> pystr list" where
  "findall p s = findall_from p s 0"

text \<open>
  \<^verbatim>\<open>EMAIL_REGEX = r'^[a-zA-Z0-9._%+-]+@[a-zA-Z0-9.-]+\.[a-zA-Z]{2,}$'\<close>
\<close>

definition local_class :: charset where
  "local_class =
     [(ord CHR ''a'', ord CHR ''z''), (ord CHR ''A'', ord CHR ''Z''),
      (ord CHR ''0'', ord CHR ''9''), (ord CHR ''.'', ord CHR ''.''),
      (ord CHR ''_'', ord CHR ''_''), (ord CHR ''%'', ord CHR ''%''),
      (ord CHR ''+'', ord CHR ''+''), (ord CHR ''-'', ord CHR ''-'')]"

definition domain_class :: charset where
  "domain_class =
     [(ord CHR ''a'', ord CHR ''z''), (ord CHR ''A'', ord CHR ''Z''),
      (ord CHR ''0'', ord CHR ''9''), (ord CHR ''.'', ord CHR ''.''),
      (ord CHR ''-'', ord CHR ''-'')]"

definition alpha_class :: charset where
  "alpha_class = [(ord CHR ''a'', ord CHR ''z''), (ord CHR ''A'', ord CHR ''Z'')]"

definition EMAIL_REGEX :: "item list" where
  "EMAIL_REGEX =
     [Caret, Rep local_class 1, Chr (ord CHR ''@''), Rep domain_class 1,
      Chr (ord CHR ''.''), Rep alpha_class 2, Dollar]"

section \<open>Format check\<close>

text \<open>
  \<^verbatim>\<open>def validate_format(email):
      return bool(re.match(EMAIL_REGEX, email.strip()))\<close>
  A match object is always true, \<open>None\<close> is false.
\<close>

definition validate_format :: "pystr \<Rightarrow> bool" where
  "validate_format email = (re_match EMAIL_REGEX (strip email) \<noteq> None)"

section \<open>The network\<close>

text \<open>
  The two library calls that reach the network are parameters of the model. A call
  returns a value or raises an exception: \<open>resolve env domain\<close> stands for
  \<open>dns.resolver.resolve(domain, 'MX')\<close> and returns the records of the answer,
  \<open>gethostbyname env domain\<close> stands for \<open>socket.gethostbyname(domain)\<close> and returns
  the address.
\<close>

datatype 'a outcome = Returns 'a | Raises pyexn

record env =
  resolve :: "pystr \<Rightarrow> pystr list outcome"
  gethostbyname :: "pystr \<Rightarrow> pystr outcome"

text \<open>
  A computation that may call the network gives its value, or the exception that
  leaves it, together with the list of the network calls it made.
\<close>

datatype probe = MXQuery pystr | HostLookup pystr

type_synonym 'a io = "(pyexn + 'a) \<times> probe list"

definition return_io :: "'a \<Rightarrow> 'a io" where
  "return_io x = (Inr x, [])"

definition bind_io :: "'a io \<Rightarrow> ('a \<Rightarrow> 'b io) \<Rightarrow> 'b io" where
  "bind_io m f =
     (case m of
        (Inl e, t) \<Rightarrow> (Inl e, t)
      | (Inr x, t) \<Rightarrow> (case f x of (r, t') \<Rightarrow> (r, t @ t')))"

text \<open>
  \<^verbatim>\<open>def check_mx_records(domain):
      try:
          mx_records = dns.resolver.resolve(domain, 'MX')
          return len(mx_records) > 0
      except (dns.resolver.NoAnswer, dns.resolver.NXDOMAIN):
          return False
      except Exception as e:
          return False\<close>
\<close>

definition check_mx_records :: "env \<Rightarrow> pystr \<Rightarrow> bool io" where
  "check_mx_records env domain =
     (case resolve env domain of
        Returns mx_records \<Rightarrow> Inr (length mx_records > 0)
      | Raises e \<Rightarrow> if e = NoAnswer \<or> e = NXDOMAIN then Inr False else Inr False,
      [MXQuery domain])"

text \<open>
  \<^verbatim>\<open>def check_domain_exists(domain):
      try:
          socket.gethostbyname(domain)
          return True
      except socket.gaierror:
          return False\<close>
\<close>

definition check_domain_exists :: "env \<Rightarrow> pystr \<Rightarrow> bool io" where
  "check_domain_exists env domain =
     (case gethostbyname env domain of
        Returns address \<Rightarrow> Inr True
      | Raises e \<Rightarrow> if e = gaierror then Inr False else Inl e,
      [HostLookup domain])"

section \<open>Validation of one address\<close>

datatype status = Valid | Doubtful | Invalid

text \<open>The dictionary \<open>results\<close> of \<open>validate_email\<close>; \<open>None\<close> is Python's \<open>None\<close>.\<close>

record result =
  email :: pystr
  valid_format :: bool
  has_mx :: "bool option"
  domain_exists :: "bool option"
  status :: status

text \<open>The truth value of \<open>None\<close>, \<open>True\<close> or \<open>False\<close> under \<open>not\<close>.\<close>

fun truthy :: "bool option \<Rightarrow> bool" where
  "truthy None = False"
| "truthy (Some b) = b"

text \<open>
  \<open>validate_email(email, check_mx, check_domain)\<close>. The argument is called \<open>raw\<close>
  here and its stripped value \<open>e\<close>, the dictionary keeps its name \<open>results\<close>.
\<close>

definition validate_email :: "env \<Rightarrow> pystr \<Rightarrow> bool \<Rightarrow> bool \<Rightarrow> result io" where
  "validate_email env raw check_mx check_domain =
     (let e = strip raw;
          results = \<lparr>email = e, valid_format = False, has_mx = None,
                     domain_exists = None, status = Invalid\<rparr>
      in if \<not> validate_format e then return_io results
         else
           let results = results\<lparr>valid_format := True\<rparr> in
           bind_io (index (str_split (ord CHR ''@'') e) 1, []) (\<lambda>domain.
           bind_io (if check_mx
                    then bind_io (check_mx_records env domain)
                           (\<lambda>b. return_io (results\<lparr>has_mx := Some b\<rparr>))
                    else return_io results) (\<lambda>results.
           bind_io (if check_domain
                    then bind_io (check_domain_exists env domain)
                           (\<lambda>b. return_io (results\<lparr>domain_exists := Some b\<rparr>))
                    else return_io results) (\<lambda>results.
           return_io
             (if valid_format results then
                (if (check_mx \<and> \<not> truthy (has_mx results)) \<or>
                    (check_domain \<and> \<not> truthy (domain_exists results))
                 then results\<lparr>status := Doubtful\<rparr>
                 else results\<lparr>status := Valid\<rparr>)
              else results)))))"

section \<open>Validation of a file of addresses\<close>

text \<open>
  What \<open>validate_file\<close> prints, as events. The progress value is
  \<open>(processed / len(emails)) * 100\<close>; Python computes it in floating point, the model
  keeps the exact rational number.
\<close>

datatype event =
    ErrorReadingFile
  | NoEmailsFound
  | Validating nat
  | Progress rat
  | ValidationComplete
  | Summary nat nat nat

text \<open>
  The state of a run: the list \<open>results\<close>, the counter \<open>processed\<close>, the events printed
  so far, and the exception that left the function, if one did.
\<close>

record batch =
  results :: "result list"
  processed :: nat
  events :: "event list"
  raised :: "pyexn option"

text \<open>\<^verbatim>\<open>emails = [line.strip() for line in f if line.strip()]\<close>\<close>

definition read_emails :: "pystr list \<Rightarrow> pystr list" where
  "read_emails lines = map strip (filter (\<lambda>line. strip line \<noteq> []) lines)"

text \<open>
  The loop over \<open>as_completed(future_to_email)\<close>, given \<open>n = len(emails)\<close> and the
  futures in the order in which they completed. \<open>future.result()\<close> gives the result of the call or raises the
  exception that the call raised, which ends the loop and the function.
\<close>

fun as_completed_loop :: "nat \<Rightarrow> (pyexn + result) list \<Rightarrow> batch \<Rightarrow> batch" where
  "as_completed_loop n [] b = b"
| "as_completed_loop n (future # futures) b =
     (case future of
        Inl e \<Rightarrow> b\<lparr>raised := Some e\<rparr>
      | Inr r \<Rightarrow>
          as_completed_loop n futures
            (b\<lparr>results := results b @ [r],
               processed := processed b + 1,
               events := events b @
                 [Progress (of_nat (processed b + 1) / of_nat n * 100)]\<rparr>))"

definition count_status :: "status \<Rightarrow> result list \<Rightarrow> nat" where
  "count_status st rs = length (filter (\<lambda>r. status r = st) rs)"

text \<open>
  \<open>validate_file\<close>, from the lines of the file (or the exception raised on reading
  it) to the final state. One call of \<open>validate_email\<close> is submitted per address to a
  pool of \<open>workers\<close> threads; \<open>ThreadPoolExecutor\<close> raises \<open>ValueError\<close> when
  \<open>workers\<close> is not positive. The threads decide the order in which the calls
  complete: \<open>completion\<close> lists the indices of the addresses in that order. Writing the
  results to the output file is left out.
\<close>

definition validate_file ::
    "env \<Rightarrow> pystr list outcome \<Rightarrow> bool \<Rightarrow> bool \<Rightarrow> int \<Rightarrow> nat list \<Rightarrow> batch" where
  "validate_file env file check_mx check_domain workers completion =
     (case file of
        Raises e \<Rightarrow>
          \<lparr>results = [], processed = 0, events = [ErrorReadingFile], raised = None\<rparr>
      | Returns lines \<Rightarrow>
          let emails = read_emails lines in
          if emails = [] then
            \<lparr>results = [], processed = 0, events = [NoEmailsFound], raised = None\<rparr>
          else
            let b0 = \<lparr>results = [], processed = 0,
                       events = [Validating (length emails)], raised = None\<rparr>
            in if workers \<le> 0 then b0\<lparr>raised := Some ValueError\<rparr>
               else
                 let futures =
                       map (\<lambda>e. fst (validate_email env e check_mx check_domain)) emails;
                     b = as_completed_loop (length emails)
                           (map (\<lambda>i. futures ! i) completion) b0
                 in if raised b \<noteq> None then b
                    else b\<lparr>events := events b @
                           [ValidationComplete,
                            Summary (count_status Valid (results b))
                                    (count_status Doubtful (results b))
                                    (count_status Invalid (results b))]\<rparr>)"

section \<open>Extraction\<close>

text \<open>
  \<^verbatim>\<open>def extract_emails_from_text(text):
      emails = re.findall(EMAIL_REGEX, text)
      return list(set(emails))  # Remove duplicates\<close>
  The order of the returned list is that of a Python set, which is not specified:
  the model returns the set.
\<close>

definition extract_emails_from_text :: "pystr \<Rightarrow> pystr set" where
  "extract_emails_from_text text = set (findall EMAIL_REGEX text)"

section \<open>The pattern in words\<close>

text \<open>
  The format pattern as the specification describes it: one or more characters from
  \<open>[a-zA-Z0-9._%+-]\<close>, a literal \<open>@\<close>, one or more characters from \<open>[a-zA-Z0-9.-]\<close>, a
  literal dot, and two or more alphabetic characters, the whole string being matched.
\<close>

definition alphabetic :: "nat \<Rightarrow> bool" where
  "alphabetic c \<longleftrightarrow>
     (ord CHR ''a'' \<le> c \<and> c \<le> ord CHR ''z'') \<or> (ord CHR ''A'' \<le> c \<and> c \<le> ord CHR ''Z'')"

definition alphanumeric :: "nat \<Rightarrow> bool" where
  "alphanumeric c \<longleftrightarrow> alphabetic c \<or> (ord CHR ''0'' \<le> c \<and> c \<le> ord CHR ''9'')"

definition spec_local_char :: "nat \<Rightarrow> bool" where
  "spec_local_char c \<longleftrightarrow> alphanumeric c \<or> c \<in> set (str ''._%+-'')"

definition spec_domain_char :: "nat \<Rightarrow> bool" where
  "spec_domain_char c \<longleftrightarrow> alphanumeric c \<or> c \<in> set (str ''.-'')"

definition spec_pattern :: "pystr \<Rightarrow> bool" where
  "spec_pattern s \<longleftrightarrow>
     (\<exists>l d t. s = l @ [ord CHR ''@''] @ d @ [ord CHR ''.''] @ t \<and>
        l \<noteq> [] \<and> list_all spec_local_char l \<and>
        d \<noteq> [] \<and> list_all spec_domain_char d \<and>
        2 \<le> length t \<and> list_all alphabetic t)"

text \<open>The substring after the first occurrence of a character.\<close>

definition after_first :: "nat \<Rightarrow> pystr \<Rightarrow> pystr" where
  "after_first c s = drop 1 (dropWhile (\<lambda>x. x \<noteq> c) s)"

section \<open>Auxiliary notions\<close>

text \<open>What the MX query says about a domain: an answer with at least one record.\<close>

definition mx_answer :: "env \<Rightarrow> pystr \<Rightarrow> bool" where
  "mx_answer env domain = (case resolve env domain of Returns rs \<Rightarrow> rs \<noteq> [] | Raises x \<Rightarrow> False)"

text \<open>The progress events for the completions \<open>i, \<dots>, j - 1\<close> out of \<open>n\<close>.\<close>

definition progress_values :: "nat \<Rightarrow> nat \<Rightarrow> nat \<Rightarrow> event list" where
  "progress_values n i j = map (\<lambda>k. Progress (of_nat k / of_nat n * 100)) [i..<j]"

text \<open>A network whose host lookup fails with \<open>gaierror\<close> only.\<close>

definition gaierror_only :: "env \<Rightarrow> bool" where
  "gaierror_only env \<longleftrightarrow> (\<forall>d x. gethostbyname env d = Raises x \<longrightarrow> x = gaierror)"

section \<open>Example networks\<close>

text \<open>
  \<open>net_up\<close>: every domain has an MX record and an address. \<open>net_down\<close>: every MX
  query ends in \<open>NXDOMAIN\<close> and every host lookup in \<open>gaierror\<close>. \<open>net_idna\<close>: as
  \<open>net_up\<close>, but the name \<open>a..com\<close> has an empty label, so that the MX query raises
  \<open>EmptyLabel\<close> and \<open>gethostbyname\<close> raises \<open>UnicodeError\<close> when it encodes the name.
\<close>

definition net_up :: env where
  "net_up = \<lparr>resolve = (\<lambda>domain. Returns [str ''10 mx.b.co.'']),
             gethostbyname = (\<lambda>domain. Returns (str ''192.0.2.1''))\<rparr>"

definition net_down :: env where
  "net_down = \<lparr>resolve = (\<lambda>domain. Raises NXDOMAIN),
               gethostbyname = (\<lambda>domain. Raises gaierror)\<rparr>"

definition net_idna :: env where
  "net_idna =
     \<lparr>resolve = (\<lambda>domain. if domain = str ''a..com'' then Raises EmptyLabel
                           else Returns [str ''10 mx.b.co.'']),
      gethostbyname = (\<lambda>domain. if domain = str ''a..com'' then Raises UnicodeError
                                 else Returns (str ''192.0.2.1''))\<rparr>"

section \<open>Evaluation\<close>

text \<open>
  The equation of \<open>findall_from\<close> rewrites without end; it is applied by hand.
\<close>

declare findall_from.simps [simp del]

lemmas eval_defs =
  validate_email_def validate_format_def re_match_def EMAIL_REGEX_def str_def ord_def
  strip_def isspace_def local_class_def domain_class_def alpha_class_def in_class_def
  bind_io_def return_io_def index_def check_mx_records_def check_domain_exists_def

section \<open>Stripping\<close>

lemma strip_hd: "strip s \<noteq> [] \<Longrightarrow> \<not> isspace (hd (strip s))"
  by (metis append_is_Nil_conv hd_dropWhile last_appendR last_rev
    rev.simps(1) rev_rev_ident strip_def takeWhile_dropWhile_id)

lemma strip_last: "strip s \<noteq> [] \<Longrightarrow> \<not> isspace (last (strip s))"
  unfolding strip_def by (simp add: last_rev hd_dropWhile)

lemma strip_id: "s = [] \<or> (\<not> isspace (hd s) \<and> \<not> isspace (last s)) \<Longrightarrow> strip s = s"
proof (cases "s = []")
  case True
  then show ?thesis by (simp add: strip_def)
next
  case False
  assume "s = [] \<or> (\<not> isspace (hd s) \<and> \<not> isspace (last s))"
  with False have h: "\<not> isspace (hd s)" and l: "\<not> isspace (last s)" by auto
  from h False have 1: "dropWhile isspace s = s" by (simp add: dropWhile_eq_self_iff)
  from l False have 2: "dropWhile isspace (rev s) = rev s"
    by (simp add: dropWhile_eq_self_iff hd_rev)
  show ?thesis by (simp add: strip_def 1 2)
qed

lemma strip_idem: "strip (strip s) = strip s"
  using strip_id strip_hd strip_last by blast

text \<open>What is stripped is whitespace, and nothing else.\<close>

lemma strip_decomp:
  "\<exists>u w. s = u @ strip s @ w \<and> list_all isspace u \<and> list_all isspace w"
proof -
  let ?a = "dropWhile isspace s"
  have "rev ?a = takeWhile isspace (rev ?a) @ dropWhile isspace (rev ?a)" by simp
  then have "rev (rev ?a) = rev (takeWhile isspace (rev ?a) @ dropWhile isspace (rev ?a))"
    by (rule arg_cong)
  then have 2: "?a = strip s @ rev (takeWhile isspace (rev ?a))"
    unfolding strip_def rev_append rev_rev_ident .
  have 3: "list_all isspace (takeWhile isspace s)"
    by (auto simp: list_all_iff dest: set_takeWhileD)
  have 4: "list_all isspace (rev (takeWhile isspace (rev ?a)))"
    by (auto simp: list_all_iff dest: set_takeWhileD)
  have "s = takeWhile isspace s @ ?a" by simp
  with 2 have "s = takeWhile isspace s @ strip s @ rev (takeWhile isspace (rev ?a))" by simp
  with 3 4 show ?thesis by blast
qed

section \<open>The matcher and the pattern in words\<close>

lemma greedy_iff: "(greedy f m n \<noteq> None) = (\<exists>k. n \<le> k \<and> k \<le> m \<and> f k \<noteq> None)"
proof (induction m)
  case 0
  then show ?case by auto
next
  case (Suc m)
  show ?case
  proof (cases "Suc m < n")
    case True
    then show ?thesis by auto
  next
    case False
    show ?thesis
    proof (cases "f (Suc m)")
      case None
      then show ?thesis using False Suc
        by (metis greedy.simps(2) le_Suc_eq option.simps(4))
    next
      case (Some e)
      with False have "n \<le> Suc m \<and> Suc m \<le> Suc m \<and> f (Suc m) \<noteq> None" by simp
      then have "\<exists>k. n \<le> k \<and> k \<le> Suc m \<and> f k \<noteq> None" by blast
      moreover have "greedy f (Suc m) n \<noteq> None" using Some False by simp
      ultimately show ?thesis by blast
    qed
  qed
qed

lemma match_Rep_iff:
  "(match_items (Rep cs n # r) pos s \<noteq> None) =
   (\<exists>k. n \<le> k \<and> k \<le> length (takeWhile (in_class cs) s) \<and>
        match_items r (pos + k) (drop k s) \<noteq> None)"
  unfolding match_items.simps by (rule greedy_iff)

lemma le_takeWhile_iff:
  "(k \<le> length (takeWhile P s)) = (k \<le> length s \<and> list_all P (take k s))"
proof (induction s arbitrary: k)
  case Nil
  then show ?case by simp
next
  case (Cons x xs)
  then show ?case by (cases k) auto
qed

lemma in_local_class: "in_class local_class = spec_local_char"
  by (auto simp: fun_eq_iff in_class_def local_class_def spec_local_char_def alphanumeric_def alphabetic_def str_def)

lemma in_domain_class: "in_class domain_class = spec_domain_char"
  by (auto simp: fun_eq_iff in_class_def domain_class_def spec_domain_char_def alphanumeric_def alphabetic_def str_def)

lemma in_alpha_class: "in_class alpha_class = alphabetic"
  by (auto simp: fun_eq_iff in_class_def alpha_class_def alphabetic_def)

lemma match_Chr_iff:
  "(match_items (Chr c # r) pos s \<noteq> None) =
   (\<exists>xs. s = c # xs \<and> match_items r (pos + 1) xs \<noteq> None)"
  by (cases s) auto

lemma match_Dollar_iff:
  "(match_items [Dollar] pos s \<noteq> None) = (s = [] \<or> s = [10])"
  by simp

lemma if_0_eq_0: "(if (0::nat) = 0 then a else b) = a" by simp

lemma re_match_EMAIL_nested:
  "(re_match EMAIL_REGEX s \<noteq> None) =
   (\<exists>k\<ge>1. (k \<le> length s \<and> list_all spec_local_char (take k s)) \<and>
     (\<exists>xs. drop k s = ord CHR ''@'' # xs \<and>
       (\<exists>k\<ge>1. (k \<le> length xs \<and> list_all spec_domain_char (take k xs)) \<and>
         (\<exists>xsa. drop k xs = ord CHR ''.'' # xsa \<and>
           (\<exists>k\<ge>2. (k \<le> length xsa \<and> list_all alphabetic (take k xsa)) \<and>
                   (drop k xsa = [] \<or> drop k xsa = [10]))))))"
  unfolding re_match_def EMAIL_REGEX_def match_items.simps(2) if_0_eq_0 match_Rep_iff match_Chr_iff
    le_takeWhile_iff in_local_class in_domain_class in_alpha_class match_Dollar_iff
  by (rule refl)

lemma re_match_EMAIL_parts:
  "(re_match EMAIL_REGEX s \<noteq> None) =
   (\<exists>l d t r. s = l @ [ord CHR ''@''] @ d @ [ord CHR ''.''] @ t @ r \<and>
        l \<noteq> [] \<and> list_all spec_local_char l \<and>
        d \<noteq> [] \<and> list_all spec_domain_char d \<and>
        2 \<le> length t \<and> list_all alphabetic t \<and> (r = [] \<or> r = [10]))"
  (is "?L = ?R")
proof
  assume ?L
  then obtain k1 xs k2 xsa k3 where
    k1: "1 \<le> k1" "k1 \<le> length s" "list_all spec_local_char (take k1 s)"
    and xs: "drop k1 s = ord CHR ''@'' # xs"
    and k2: "1 \<le> k2" "k2 \<le> length xs" "list_all spec_domain_char (take k2 xs)"
    and xsa: "drop k2 xs = ord CHR ''.'' # xsa"
    and k3: "2 \<le> k3" "k3 \<le> length xsa" "list_all alphabetic (take k3 xsa)"
    and r: "drop k3 xsa = [] \<or> drop k3 xsa = [10]"
    unfolding re_match_EMAIL_nested by (elim exE conjE)
  have "s = take k1 s @ drop k1 s" by simp
  also have "drop k1 s = ord CHR ''@'' # (take k2 xs @ drop k2 xs)" using xs by simp
  also have "drop k2 xs = ord CHR ''.'' # (take k3 xsa @ drop k3 xsa)" using xsa by simp
  finally have "s = take k1 s @ [ord CHR ''@''] @ take k2 xs @ [ord CHR ''.''] @ take k3 xsa @ drop k3 xsa"
    by simp
  moreover have "take k1 s \<noteq> []" using k1 by auto
  moreover have "take k2 xs \<noteq> []" using k2 by auto
  moreover have "2 \<le> length (take k3 xsa)" using k3 by simp
  ultimately show ?R using k1(3) k2(3) k3(3) r by blast
next
  assume ?R
  then obtain l d t r where
    s: "s = l @ [ord CHR ''@''] @ d @ [ord CHR ''.''] @ t @ r"
    and l: "l \<noteq> []" "list_all spec_local_char l"
    and d: "d \<noteq> []" "list_all spec_domain_char d"
    and t: "2 \<le> length t" "list_all alphabetic t"
    and r: "r = [] \<or> r = [10]"
    by blast
  define v where "v = t @ r"
  define w where "w = d @ [ord CHR ''.''] @ v"
  have 3: "\<exists>k\<ge>2. (k \<le> length v \<and> list_all alphabetic (take k v)) \<and>
                   (drop k v = [] \<or> drop k v = [10])"
    unfolding v_def using t r by (intro exI[of _ "length t"]) simp
  have 2: "\<exists>k\<ge>1. (k \<le> length w \<and> list_all spec_domain_char (take k w)) \<and>
         (\<exists>xsa. drop k w = ord CHR ''.'' # xsa \<and>
           (\<exists>k\<ge>2. (k \<le> length xsa \<and> list_all alphabetic (take k xsa)) \<and>
                   (drop k xsa = [] \<or> drop k xsa = [10])))"
    unfolding w_def using d 3 by (intro exI[of _ "length d"]) (simp add: Suc_le_eq)
  have s': "s = l @ [ord CHR ''@''] @ w" by (simp add: s w_def v_def)
  show ?L unfolding re_match_EMAIL_nested
    apply (rule exI[of _ "length l"])
    using l 2 by (simp add: s' Suc_le_eq)
qed

lemma validate_format_spec: "validate_format e = spec_pattern (strip e)"
proof -
  have "(re_match EMAIL_REGEX (strip e) \<noteq> None) = spec_pattern (strip e)" (is "?L = ?R")
  proof
    assume ?L
    then obtain l d t r where
      s: "strip e = l @ [ord CHR ''@''] @ d @ [ord CHR ''.''] @ t @ r"
      and p: "l \<noteq> []" "list_all spec_local_char l" "d \<noteq> []" "list_all spec_domain_char d"
         "2 \<le> length t" "list_all alphabetic t"
      and r: "r = [] \<or> r = [10]"
      unfolding re_match_EMAIL_parts by blast
    have "r \<noteq> [10]"
    proof
      assume "r = [10]"
      with s have "strip e \<noteq> []" "last (strip e) = 10" by simp_all
      then show False using strip_last[of e] by (simp add: isspace_def)
    qed
    with r have "r = []" by simp
    with s p show ?R unfolding spec_pattern_def by auto
  next
    assume ?R
    then obtain l d t where
      "strip e = l @ [ord CHR ''@''] @ d @ [ord CHR ''.''] @ t @ []"
      "l \<noteq> []" "list_all spec_local_char l" "d \<noteq> []" "list_all spec_domain_char d"
      "2 \<le> length t" "list_all alphabetic t"
      unfolding spec_pattern_def by auto
    then show ?L unfolding re_match_EMAIL_parts by blast
  qed
  then show ?thesis by (simp add: validate_format_def)
qed

text \<open>
  A string of the pattern's shape neither starts nor ends with whitespace, so it is
  what stripping leaves of it when whitespace is put around it.
\<close>

lemma local_not_space: "spec_local_char c \<Longrightarrow> \<not> isspace c"
  by (auto simp: spec_local_char_def alphanumeric_def alphabetic_def str_def ord_def isspace_def)

lemma alphabetic_not_space: "alphabetic c \<Longrightarrow> \<not> isspace c"
  by (auto simp: alphabetic_def ord_def isspace_def)

lemma spec_pattern_ends:
  assumes "spec_pattern s"
  shows "s \<noteq> [] \<and> \<not> isspace (hd s) \<and> \<not> isspace (last s)"
proof -
  from assms obtain l d t where
    s: "s = l @ [ord CHR ''@''] @ d @ [ord CHR ''.''] @ t"
    and l: "l \<noteq> []" "list_all spec_local_char l"
    and t: "2 \<le> length t" "list_all alphabetic t"
    unfolding spec_pattern_def by blast
  from l have "spec_local_char (hd l)" by (cases l) auto
  with l s have h: "\<not> isspace (hd s)" by (simp add: local_not_space)
  from t have tn: "t \<noteq> []" by auto
  with t have "alphabetic (last t)" by (simp add: list_all_iff)
  with tn s have "\<not> isspace (last s)" by (simp add: alphabetic_not_space)
  with h s show ?thesis by simp
qed

lemma strip_sandwich:
  assumes u: "list_all isspace u" and w: "list_all isspace w"
    and s: "s \<noteq> []" "\<not> isspace (hd s)" "\<not> isspace (last s)"
  shows "strip (u @ s @ w) = s"
proof -
  have "dropWhile isspace (u @ s @ w) = dropWhile isspace (s @ w)"
    using u by (simp add: list_all_iff dropWhile_append2)
  also have "\<dots> = s @ w" using s by (cases s) auto
  finally have 1: "dropWhile isspace (u @ s @ w) = s @ w" .
  have "\<And>x. x \<in> set (rev w) \<Longrightarrow> isspace x" using w by (simp add: list_all_iff)
  then have "dropWhile isspace (rev w @ rev s) = dropWhile isspace (rev s)"
    by (rule dropWhile_append2)
  then have "dropWhile isspace (rev (s @ w)) = dropWhile isspace (rev s)" by simp
  also have "\<dots> = rev s" using s by (simp add: dropWhile_eq_self_iff hd_rev)
  finally have 2: "dropWhile isspace (rev (s @ w)) = rev s" .
  show ?thesis unfolding strip_def 1 2 by simp
qed

section \<open>Splitting at the at-sign\<close>

lemma str_split_no_sep: "sep \<notin> set s \<Longrightarrow> str_split sep s = [s]"
  by (induction s) auto

lemma str_split_append:
  "sep \<notin> set l \<Longrightarrow> str_split sep (l @ sep # r) = l # str_split sep r"
  by (induction l) auto

lemma after_first_append: "c \<notin> set l \<Longrightarrow> after_first c (l @ c # r) = r"
  by (induction l) (auto simp: after_first_def)

lemma at_not_local: "spec_local_char c \<Longrightarrow> c \<noteq> ord CHR ''@''"
  by (auto simp: spec_local_char_def alphanumeric_def alphabetic_def str_def ord_def)

lemma at_not_domain: "spec_domain_char c \<Longrightarrow> c \<noteq> ord CHR ''@''"
  by (auto simp: spec_domain_char_def alphanumeric_def alphabetic_def str_def ord_def)

lemma at_not_alphabetic: "alphabetic c \<Longrightarrow> c \<noteq> ord CHR ''@''"
  by (auto simp: alphabetic_def ord_def)

lemma spec_pattern_one_at:
  assumes "spec_pattern s"
  shows "\<exists>l r. s = l @ ord CHR ''@'' # r \<and> ord CHR ''@'' \<notin> set l \<and> ord CHR ''@'' \<notin> set r"
proof -
  from assms obtain l d t where
    s: "s = l @ [ord CHR ''@''] @ d @ [ord CHR ''.''] @ t"
    and l: "list_all spec_local_char l" and d: "list_all spec_domain_char d"
    and t: "list_all alphabetic t"
    unfolding spec_pattern_def by blast
  have "ord CHR ''@'' \<notin> set l" using l at_not_local by (auto simp: list_all_iff)
  moreover have "ord CHR ''@'' \<notin> set (d @ [ord CHR ''.''] @ t)"
    using d t at_not_domain at_not_alphabetic by (auto simp: list_all_iff ord_def)
  moreover have "s = l @ ord CHR ''@'' # (d @ [ord CHR ''.''] @ t)" using s by simp
  ultimately show ?thesis by blast
qed

lemma count_list_notin: "c \<notin> set xs \<Longrightarrow> count_list xs c = 0"
  by (induction xs) auto

lemma split_one_at:
  assumes "sep \<notin> set l" "sep \<notin> set r"
  shows "count_list (l @ sep # r) sep = 1"
    and "index (str_split sep (l @ sep # r)) 1 = Inr r"
    and "after_first sep (l @ sep # r) = r"
  using assms
  by (simp_all add: count_list_notin str_split_append str_split_no_sep index_def after_first_append)

lemma validate_format_strip: "validate_format (strip raw) = validate_format raw"
  by (simp add: validate_format_def strip_idem)

lemma index_domain:
  assumes "validate_format raw"
  shows "index (str_split (ord CHR ''@'') (strip raw)) 1 = Inr (after_first (ord CHR ''@'') (strip raw))"
proof -
  from assms have "spec_pattern (strip raw)" by (simp add: validate_format_spec)
  then obtain l r where "strip raw = l @ ord CHR ''@'' # r" "ord CHR ''@'' \<notin> set l" "ord CHR ''@'' \<notin> set r"
    using spec_pattern_one_at by blast
  then show ?thesis using split_one_at[of "ord CHR ''@''" l r] by simp
qed

section \<open>The two outcomes of the format check in \<open>validate_email\<close>\<close>

lemma check_mx_records_eq: "check_mx_records env domain = (Inr (mx_answer env domain), [MXQuery domain])"
  by (simp add: check_mx_records_def mx_answer_def split: outcome.splits)

lemma validate_email_invalid:
  assumes "\<not> validate_format raw"
  shows "validate_email env raw cm cd =
     (Inr \<lparr>email = strip raw, valid_format = False, has_mx = None,
           domain_exists = None, status = Invalid\<rparr>, [])"
  using assms by (simp add: validate_email_def validate_format_strip return_io_def)

lemma validate_email_valid:
  assumes "validate_format raw"
  shows "validate_email env raw cm cd =
     (let e = strip raw; domain = after_first (ord CHR ''@'') e;
          mx = mx_answer env domain;
          t1 = (if cm then [MXQuery domain] else []);
          t2 = (if cd then [HostLookup domain] else [])
      in if cd then
           (case gethostbyname env domain of
              Returns a \<Rightarrow>
                (Inr \<lparr>email = e, valid_format = True,
                      has_mx = (if cm then Some mx else None), domain_exists = Some True,
                      status = (if cm \<and> \<not> mx then Doubtful else Valid)\<rparr>, t1 @ t2)
            | Raises x \<Rightarrow>
                if x = gaierror then
                  (Inr \<lparr>email = e, valid_format = True,
                        has_mx = (if cm then Some mx else None), domain_exists = Some False,
                        status = Doubtful\<rparr>, t1 @ t2)
                else (Inl x, t1 @ t2))
         else
           (Inr \<lparr>email = e, valid_format = True,
                 has_mx = (if cm then Some mx else None), domain_exists = None,
                 status = (if cm \<and> \<not> mx then Doubtful else Valid)\<rparr>, t1))"
  using assms index_domain[OF assms]
  by (simp add: validate_email_def validate_format_strip Let_def bind_io_def
      return_io_def check_mx_records_eq check_domain_exists_def split: outcome.splits)

lemma validate_email_returns:
  assumes "check_domain \<longrightarrow> gaierror_only env"
  shows "\<exists>r. fst (validate_email env raw check_mx check_domain) = Inr r \<and> email r = strip raw"
proof (cases "validate_format raw")
  case True
  show ?thesis
    using assms unfolding validate_email_valid[OF True] Let_def gaierror_only_def
    by (auto split: outcome.splits)
next
  case False
  show ?thesis unfolding validate_email_invalid[OF False] by simp
qed

section \<open>The batch loop\<close>

lemma progress_values_Cons:
  "i < j \<Longrightarrow>
   progress_values n i j = Progress (of_nat i / of_nat n * 100) # progress_values n (Suc i) j"
  by (simp add: progress_values_def upt_conv_Cons)

lemma as_completed_loop_Inr:
  "as_completed_loop n (map Inr rs) b =
     b\<lparr>results := results b @ rs,
       processed := processed b + length rs,
       events := events b @
         progress_values n (processed b + 1) (processed b + length rs + 1)\<rparr>"
proof (induction rs arbitrary: b)
  case Nil
  then show ?case by (simp add: progress_values_def)
next
  case (Cons r rs)
  have "progress_values n (processed b + 1) (processed b + length (r # rs) + 1) =
        Progress (of_nat (processed b + 1) / of_nat n * 100) #
        progress_values n (processed b + 1 + 1) (processed b + 1 + length rs + 1)"
    by (simp add: progress_values_Cons)
  then show ?case by (simp add: Cons.IH)
qed

lemma as_completed_loop_fault:
  "as_completed_loop n (map Inr rs @ Inl e # fs) b =
     b\<lparr>results := results b @ rs,
       processed := processed b + length rs,
       events := events b @
         progress_values n (processed b + 1) (processed b + length rs + 1),
       raised := Some e\<rparr>"
proof (induction rs arbitrary: b)
  case Nil
  then show ?case by (simp add: progress_values_def)
next
  case (Cons r rs)
  have "progress_values n (processed b + 1) (processed b + length (r # rs) + 1) =
        Progress (of_nat (processed b + 1) / of_nat n * 100) #
        progress_values n (processed b + 1 + 1) (processed b + 1 + length rs + 1)"
    by (simp add: progress_values_Cons)
  then show ?case by (simp add: Cons.IH)
qed

lemma read_emails_stripped: "e \<in> set (read_emails lines) \<Longrightarrow> strip e = e"
  by (auto simp: read_emails_def strip_idem)

lemma mset_map_nth:
  assumes "mset is = mset [0..<length xs]"
  shows "mset (map (\<lambda>i. xs ! i) is) = mset xs"
proof -
  have "mset (map (\<lambda>i. xs ! i) is) = image_mset (\<lambda>i. xs ! i) (mset is)" by simp
  also have "\<dots> = image_mset (\<lambda>i. xs ! i) (mset [0..<length xs])" using assms by simp
  also have "\<dots> = mset (map (\<lambda>i. xs ! i) [0..<length xs])" by simp
  also have "\<dots> = mset xs" by (simp add: map_nth)
  finally show ?thesis .
qed

lemma validate_file_complete:
  assumes nofault: "check_domain \<longrightarrow> gaierror_only env"
    and workers: "0 < workers"
    and perm: "mset completion = mset [0..<length (read_emails lines)]"
    and nonempty: "read_emails lines \<noteq> []"
  shows "\<exists>rs. validate_file env (Returns lines) check_mx check_domain workers completion =
           \<lparr>results = rs, processed = length (read_emails lines),
            events = Validating (length (read_emails lines)) #
                     progress_values (length (read_emails lines)) 1 (length (read_emails lines) + 1) @
                     [ValidationComplete,
                      Summary (count_status Valid rs) (count_status Doubtful rs)
                              (count_status Invalid rs)],
            raised = None\<rparr> \<and>
           length rs = length (read_emails lines) \<and>
           mset (map email rs) = mset (read_emails lines)"
proof -
  define emails where "emails = read_emails lines"
  define futures where "futures = map (\<lambda>e. fst (validate_email env e check_mx check_domain)) emails"
  define rs0 where "rs0 = map projr futures"
  have fut: "futures = map Inr rs0"
    unfolding rs0_def futures_def using validate_email_returns[OF nofault]
    by (auto simp: map_idI) (metis sum.sel(2))
  have em: "map email rs0 = emails"
  proof -
    have "\<And>e. e \<in> set emails \<Longrightarrow> email (projr (fst (validate_email env e check_mx check_domain))) = e"
      using validate_email_returns[OF nofault] read_emails_stripped
      unfolding emails_def by (metis sum.sel(2))
    then show ?thesis unfolding rs0_def futures_def by (simp add: map_idI)
  qed
  have len: "length rs0 = length emails" by (simp add: rs0_def futures_def)
  have "set completion = set [0..<length emails]"
    using perm unfolding emails_def by (metis set_mset_mset)
  then have inr: "\<And>i. i \<in> set completion \<Longrightarrow> i < length rs0" using len by auto
  define rs where "rs = map (\<lambda>i. rs0 ! i) completion"
  have compl: "map (\<lambda>i. futures ! i) completion = map Inr rs"
    unfolding rs_def fut using inr by simp
  have lenc: "length completion = length emails"
    using perm unfolding emails_def by (metis length_upt mset_eq_length minus_nat.diff_0)
  have 1: "length rs = length emails" by (simp add: rs_def lenc)
  have "mset rs = mset rs0"
    unfolding rs_def using perm len mset_map_nth[of completion rs0] by (simp add: emails_def)
  then have "mset (map email rs) = mset (map email rs0)" by (metis mset_map)
  then have 2: "mset (map email rs) = mset emails" by (simp add: em)
  have "validate_file env (Returns lines) check_mx check_domain workers completion =
           \<lparr>results = rs, processed = length emails,
            events = Validating (length emails) #
                     progress_values (length emails) 1 (length emails + 1) @
                     [ValidationComplete,
                      Summary (count_status Valid rs) (count_status Doubtful rs)
                              (count_status Invalid rs)],
            raised = None\<rparr>"
    using nonempty workers
    unfolding validate_file_def
    by (simp add: Let_def emails_def[symmetric] futures_def[symmetric] compl as_completed_loop_Inr 1)
  with 1 2 show ?thesis unfolding emails_def by blast
qed

lemma progress_sorted:
  assumes "0 < n"
  shows "sorted (map (\<lambda>k. (of_nat k / of_nat n * 100 :: rat)) [i..<j])"
  using assms
  by (auto simp: sorted_iff_nth_mono divide_right_mono)

lemma progress_last:
  assumes "0 < n"
  shows "last (progress_values n 1 (n + 1)) = Progress 100"
  using assms by (simp add: progress_values_def last_map)

lemma validate_file_empty:
  "read_emails lines = [] \<Longrightarrow>
   validate_file env (Returns lines) check_mx check_domain workers completion =
     \<lparr>results = [], processed = 0, events = [NoEmailsFound], raised = None\<rparr>"
  by (simp add: validate_file_def)

section \<open>Extraction with the anchored pattern\<close>

lemma findall_from_Caret:
  "0 < pos \<Longrightarrow> findall_from (Caret # r) s pos = []"
proof (induction "Suc (length s) - pos" arbitrary: pos)
  case 0
  then have "length s < pos" by simp
  then show ?case by (subst findall_from.simps) simp
next
  case (Suc m)
  then have "m = Suc (length s) - (pos + 1)" by simp
  then have "findall_from (Caret # r) s (pos + 1) = []" by (rule Suc.hyps(1)) simp
  then show ?case using Suc.prems by (subst findall_from.simps) simp
qed

lemma findall_EMAIL_REGEX:
  "findall EMAIL_REGEX text =
     (case re_match EMAIL_REGEX text of None \<Rightarrow> [] | Some e \<Rightarrow> [take e text])"
proof -
  have c: "\<And>pos. 0 < pos \<Longrightarrow> findall_from EMAIL_REGEX text pos = []"
    unfolding EMAIL_REGEX_def by (rule findall_from_Caret)
  show ?thesis
    unfolding findall_def re_match_def
    by (subst findall_from.simps) (simp add: c split: option.splits)
qed

lemma extract_emails_from_text_whole:
  "extract_emails_from_text text =
     (case re_match EMAIL_REGEX text of None \<Rightarrow> {} | Some e \<Rightarrow> {take e text})"
  by (simp add: extract_emails_from_text_def findall_EMAIL_REGEX split: option.splits)

section \<open>The claims\<close>

text \<open>
  C1. For every request whose address passes the format check, the result that
  \<open>validate_email\<close> returns has status \<open>Doubtful\<close> exactly when the MX check was
  requested and \<open>has_mx\<close> is false, or the domain check was requested and
  \<open>domain_exists\<close> is false, and status \<open>Valid\<close> otherwise. The status is never
  \<open>Invalid\<close>, and a check that was not requested does not demote the verdict.
\<close>

theorem status_classification:
  assumes "validate_format raw"
    and "validate_email env raw check_mx check_domain = (Inr r, t)"
  shows "valid_format r \<and> status r \<noteq> Invalid \<and>
         status r =
           (if (check_mx \<and> has_mx r = Some False) \<or>
               (check_domain \<and> domain_exists r = Some False)
            then Doubtful else Valid)"
  using assms(2) unfolding validate_email_valid[OF assms(1)] Let_def
  by (auto split: if_splits outcome.splits)

text \<open>
  An address that passes, with the MX check requested and failing and the domain
  check skipped: the verdict is \<open>Doubtful\<close>, from the MX check alone.
\<close>

theorem status_classification_witness:
  "validate_format (str ''a@b.co'') \<and>
   validate_email net_down (str ''a@b.co'') True False =
     (Inr \<lparr>email = str ''a@b.co'', valid_format = True, has_mx = Some False,
           domain_exists = None, status = Doubtful\<rparr>, [MXQuery (str ''b.co'')]) \<and>
   status \<lparr>email = str ''a@b.co'', valid_format = True, has_mx = Some False,
           domain_exists = None, status = Doubtful\<rparr> = Doubtful"
proof -
  have f: "validate_format (str ''a@b.co'')"
    by (simp add: eval_defs)
  have v: "validate_email net_down (str ''a@b.co'') True False =
     (Inr \<lparr>email = str ''a@b.co'', valid_format = True, has_mx = Some False,
           domain_exists = None, status = Doubtful\<rparr>, [MXQuery (str ''b.co'')])"
    by (simp add: eval_defs net_down_def)
  from status_classification[OF f v] f v show ?thesis by simp
qed

text \<open>
  C2. For every input that fails the format check, \<open>validate_email\<close> returns at once the
  result with \<open>valid_format\<close> false, \<open>has_mx\<close> and \<open>domain_exists\<close> unknown and status
  \<open>Invalid\<close>, whatever checks were requested and whatever the network, and it makes no
  network call: the list of probes is empty.
\<close>

theorem invalid_format_short_circuit:
  assumes "\<not> validate_format raw"
  shows "validate_email env raw check_mx check_domain =
     (Inr \<lparr>email = strip raw, valid_format = False, has_mx = None,
           domain_exists = None, status = Invalid\<rparr>, [])"
  using assms by (rule validate_email_invalid)

theorem invalid_format_short_circuit_witness:
  "\<not> validate_format (str ''not-an-email'') \<and>
   validate_email net_up (str ''not-an-email'') True True =
     (Inr \<lparr>email = strip (str ''not-an-email''), valid_format = False, has_mx = None,
           domain_exists = None, status = Invalid\<rparr>, [])"
proof -
  have f: "\<not> validate_format (str ''not-an-email'')"
    by (simp add: eval_defs)
  from invalid_format_short_circuit[OF f] f show ?thesis by simp
qed

text \<open>
  C3. \<open>validate_format\<close> is true exactly when its argument is whitespace, then a
  string that as a whole has the shape of the pattern (one or more characters of the
  local class, an at-sign, one or more characters of the domain class, a dot, and two
  or more letters), then whitespace: the whitespace at both ends is trimmed and what
  remains is matched from its first to its last character. It is a total function
  into the booleans.
\<close>

theorem format_check_is_whole_pattern:
  "validate_format raw \<longleftrightarrow>
     (\<exists>u s w. raw = u @ s @ w \<and> list_all isspace u \<and> list_all isspace w \<and>
        spec_pattern s)"
proof
  assume "validate_format raw"
  then have "spec_pattern (strip raw)" by (simp add: validate_format_spec)
  moreover obtain u w where "raw = u @ strip raw @ w" "list_all isspace u" "list_all isspace w"
    using strip_decomp by blast
  ultimately show "\<exists>u s w. raw = u @ s @ w \<and> list_all isspace u \<and> list_all isspace w \<and>
        spec_pattern s" by blast
next
  assume "\<exists>u s w. raw = u @ s @ w \<and> list_all isspace u \<and> list_all isspace w \<and>
        spec_pattern s"
  then obtain u s w where r: "raw = u @ s @ w" and uw: "list_all isspace u" "list_all isspace w"
    and p: "spec_pattern s" by blast
  from spec_pattern_ends[OF p] uw have "strip (u @ s @ w) = s" by (simp add: strip_sandwich)
  with r p show "validate_format raw" by (simp add: validate_format_spec)
qed

text \<open>
  An address between two spaces passes; an address followed by more text does not,
  nor does one whose last part has a single letter.
\<close>

theorem format_check_is_whole_pattern_witness:
  "validate_format (str '' a@b.co '') \<and> \<not> validate_format (str ''a@b.co x'') \<and>
   \<not> validate_format (str ''a@b.c'')"
proof -
  have p: "spec_pattern (str ''a@b.co'')"
    unfolding spec_pattern_def
    by (intro exI[of _ "str ''a''"] exI[of _ "str ''b''"] exI[of _ "str ''co''"])
       (simp add: str_def ord_def spec_local_char_def spec_domain_char_def alphanumeric_def
          alphabetic_def)
  have d: "str '' a@b.co '' = str '' '' @ str ''a@b.co'' @ str '' ''" by (simp add: str_def)
  have w: "list_all isspace (str '' '')" by (simp add: str_def ord_def isspace_def)
  have "\<exists>u s w. str '' a@b.co '' = u @ s @ w \<and> list_all isspace u \<and> list_all isspace w \<and>
        spec_pattern s"
    using d w p by blast
  then have "validate_format (str '' a@b.co '')"
    by (simp only: format_check_is_whole_pattern)
  moreover have "\<not> validate_format (str ''a@b.co x'')" by (simp add: eval_defs)
  moreover have "\<not> validate_format (str ''a@b.c'')" by (simp add: eval_defs)
  ultimately show ?thesis by blast
qed

text \<open>
  C4, as amended. In every result with \<open>valid_format\<close> true, \<open>has_mx\<close> and
  \<open>domain_exists\<close> are unknown exactly when the corresponding check was not requested; a
  requested MX check records whether the query gave a record (false when the query
  failed), and a requested domain check records false when the lookup failed with
  \<open>gaierror\<close>. In a result with \<open>valid_format\<close> false both fields are unknown, whether
  or not the checks were requested.
\<close>

theorem unknown_fields:
  assumes "validate_email env raw check_mx check_domain = (Inr r, t)"
  shows "if valid_format r
         then (has_mx r = None \<longleftrightarrow> \<not> check_mx) \<and>
              (domain_exists r = None \<longleftrightarrow> \<not> check_domain) \<and>
              (check_mx \<longrightarrow>
                 has_mx r = Some (mx_answer env (after_first (ord CHR ''@'') (strip raw)))) \<and>
              (check_domain \<longrightarrow>
                 domain_exists r =
                   Some (gethostbyname env (after_first (ord CHR ''@'') (strip raw)) \<noteq>
                         Raises gaierror))
         else has_mx r = None \<and> domain_exists r = None"
proof (cases "validate_format raw")
  case True
  show ?thesis
    using assms unfolding validate_email_valid[OF True] Let_def
    by (auto split: if_splits outcome.splits)
next
  case False
  show ?thesis
    using assms unfolding validate_email_invalid[OF False] by auto
qed

text \<open>
  A failed lookup with the domain check requested and the MX check skipped:
  \<open>domain_exists\<close> is false, \<open>has_mx\<close> is unknown.
\<close>

theorem unknown_fields_witness:
  "validate_email net_down (str ''a@b.co'') False True =
     (Inr \<lparr>email = str ''a@b.co'', valid_format = True, has_mx = None,
           domain_exists = Some False, status = Doubtful\<rparr>, [HostLookup (str ''b.co'')]) \<and>
   gethostbyname net_down (after_first (ord CHR ''@'') (strip (str ''a@b.co''))) =
     Raises gaierror"
proof -
  have v: "validate_email net_down (str ''a@b.co'') False True =
     (Inr \<lparr>email = str ''a@b.co'', valid_format = True, has_mx = None,
           domain_exists = Some False, status = Doubtful\<rparr>, [HostLookup (str ''b.co'')])"
    by (simp add: eval_defs net_down_def)
  from unknown_fields[OF v] v show ?thesis by simp
qed

text \<open>
  C4 as stated fails: with both checks requested, an input that fails the format
  check gives a result whose \<open>has_mx\<close> and \<open>domain_exists\<close> are unknown.
\<close>

theorem unknown_fields_counterexample:
  "validate_email net_down (str ''bad'') True True =
     (Inr \<lparr>email = str ''bad'', valid_format = False, has_mx = None,
           domain_exists = None, status = Invalid\<rparr>, [])"
  by (simp add: eval_defs)

text \<open>
  C5. \<open>check_mx_records\<close> never raises: it returns true exactly when the MX query
  returns an answer with at least one record, and false when the query raises
  \<open>NoAnswer\<close>, \<open>NXDOMAIN\<close> or any other exception.
\<close>

theorem mx_probe_total:
  "check_mx_records env domain =
     (Inr (case resolve env domain of
             Returns mx_records \<Rightarrow> mx_records \<noteq> []
           | Raises e \<Rightarrow> False),
      [MXQuery domain])"
  by (simp add: check_mx_records_def split: outcome.splits)

text \<open>
  C6 fails on the code. \<open>check_domain_exists\<close> catches \<open>socket.gaierror\<close> only: for the
  name \<open>a..com\<close>, on which \<open>gethostbyname\<close> raises \<open>UnicodeError\<close>, the exception
  leaves the probe instead of becoming false.
\<close>

theorem domain_probe_propagates:
  "check_domain_exists net_idna (str ''a..com'') =
     (Inl UnicodeError, [HostLookup (str ''a..com'')])"
  by (simp add: check_domain_exists_def net_idna_def)

text \<open>
  C7 fails on the code. The pattern is anchored at both ends, so \<open>findall\<close> can match
  at the start of the text only and up to its end: an address inside a longer text
  is not found.
\<close>

theorem extraction_misses_embedded_address:
  "extract_emails_from_text (str ''mail a@b.co now'') = {}"
  by (simp add: extract_emails_from_text_whole eval_defs)

text \<open>
  C8 fails on the code. With two addresses, the second of which makes the domain
  probe raise, \<open>future.result()\<close> raises in the loop: the run ends with one result
  instead of two and with the exception.
\<close>

theorem batch_loses_results_on_fault:
  "validate_file net_idna (Returns [str ''a@b.co'', str ''x@a..com'']) True True 10 [0, 1] =
     \<lparr>results = [\<lparr>email = str ''a@b.co'', valid_format = True, has_mx = Some True,
                  domain_exists = Some True, status = Valid\<rparr>],
      processed = 1,
      events = [Validating 2, Progress 50],
      raised = Some UnicodeError\<rparr>"
proof -
  have s1: "strip (str ''a@b.co'') = str ''a@b.co''"
    by (simp add: strip_def str_def ord_def isspace_def)
  have s2: "strip (str ''x@a..com'') = str ''x@a..com''"
    by (simp add: strip_def str_def ord_def isspace_def)
  have e: "read_emails [str ''a@b.co'', str ''x@a..com''] = [str ''a@b.co'', str ''x@a..com'']"
    by (simp add: read_emails_def s1 s2) (simp add: str_def)
  have v1: "fst (validate_email net_idna (str ''a@b.co'') True True) =
      Inr \<lparr>email = str ''a@b.co'', valid_format = True, has_mx = Some True,
                  domain_exists = Some True, status = Valid\<rparr>"
    by (simp add: eval_defs net_idna_def)
  have v2: "fst (validate_email net_idna (str ''x@a..com'') True True) = Inl UnicodeError"
    by (simp add: eval_defs net_idna_def)
  show ?thesis
    by (simp add: validate_file_def e v1 v2 Let_def)
qed

text \<open>
  C9 fails on the code. With one address that makes the domain probe raise, the
  call completes but the loop prints no progress at all, so no event reaches 100.
\<close>

theorem progress_stops_on_fault:
  "events (validate_file net_idna (Returns [str ''x@a..com'']) True True 10 [0]) =
     [Validating 1]"
proof -
  have s2: "strip (str ''x@a..com'') = str ''x@a..com''"
    by (simp add: strip_def str_def ord_def isspace_def)
  have e: "read_emails [str ''x@a..com''] = [str ''x@a..com'']"
    by (simp add: read_emails_def s2) (simp add: str_def)
  have v2: "fst (validate_email net_idna (str ''x@a..com'') True True) = Inl UnicodeError"
    by (simp add: eval_defs net_idna_def)
  show ?thesis
    by (simp add: validate_file_def e v2 Let_def)
qed



end
